theory Spec2Isabelle
  imports Complex_Main "HOL-Library.Word" "HOL-Library.Log_Nat"
begin

unbundle bit_operations_syntax

section \<open>pyHexDump: the checksum command (\<open>cmd_checksum.py\<close>)\<close>

text \<open>
  The development embeds \<open>calc_checksum\<close> of \<open>src/pyHexDump/cmd_checksum.py\<close>.
  Python integers are unbounded, so they are \<open>int\<close>; the bitwise operators on \<open>int\<close>
  are the two's complement ones of Python. An outcome of a call is a value of type
  \<open>(py_error + 'a) option\<close>: \<open>None\<close> when the call does not return, \<open>Some (Inl e)\<close>
  when it raises \<open>e\<close> and \<open>Some (Inr v)\<close> when it returns \<open>v\<close>.
\<close>

subsection \<open>Status codes and exceptions\<close>

text \<open>
  \<open>pyHexDump.constants.Ret\<close> is an enumeration; \<open>calc_checksum\<close> uses two of its
  members, spelled as in the source.
\<close>

datatype Ret = OK | ERROR_CRC_CACLULATION

datatype py_error = OverflowError | ZeroDivisionError | ValueError

subsection \<open>Python floats that arise in the byte counter\<close>

text \<open>
  Line 73 computes \<open>count = (end_address - start_address) / mem_access.get_size()\<close>
  with Python 3's true division, so \<open>count\<close> is a float (an IEEE 754 double) and the
  loop counts it down with float subtraction. A finite double is a rational number; the
  operations used are modelled by exact rational arithmetic followed by rounding to the
  nearest double, ties to the even significand (53 bits of precision, least exponent
  \<open>-1022\<close>, so that the spacing never falls below \<open>2 ^ -1074\<close>).
\<close>

definition pow2 :: "int \<Rightarrow> rat" where
  "pow2 e = (if 0 \<le> e then 2 ^ nat e else 1 / 2 ^ nat (- e))"

definition floor_log2 :: "rat \<Rightarrow> int" where
  \<comment> \<open>for \<open>0 < q\<close>: the exponent \<open>e\<close> with \<open>2 ^ e \<le> q < 2 ^ (e + 1)\<close>\<close>
  "floor_log2 q =
     (let (a, b) = quotient_of q; e0 = bitlen a - bitlen b
      in if pow2 e0 \<le> q then e0 else e0 - 1)"

definition round_half_even :: "rat \<Rightarrow> int" where
  "round_half_even x =
     (let f = \<lfloor>x\<rfloor>; d = x - of_int f
      in if d < 1 / 2 then f
         else if 1 / 2 < d then f + 1
         else if even f then f else f + 1)"

definition f64_nearest :: "rat \<Rightarrow> rat" where
  "f64_nearest q =
     (if q = 0 then 0
      else let e = max (floor_log2 \<bar>q\<bar>) (- 1022); ulp = pow2 (e - 52)
           in sgn q * of_int (round_half_even (\<bar>q\<bar> / ulp)) * ulp)"

definition py_truediv :: "int \<Rightarrow> int \<Rightarrow> py_error + rat" where
  \<comment> \<open>\<open>a / b\<close> on two Python ints: the correctly rounded quotient, \<open>ZeroDivisionError\<close>
      for a zero divisor, \<open>OverflowError\<close> when the rounded quotient is no finite double\<close>
  "py_truediv a b =
     (if b = 0 then Inl ZeroDivisionError
      else let q = f64_nearest (of_int a / of_int b)
           in if 2 ^ 1024 \<le> \<bar>q\<bar> then Inl OverflowError else Inr q)"

definition f64_sub :: "rat \<Rightarrow> rat \<Rightarrow> rat" where
  \<comment> \<open>float subtraction; the loop only subtracts 1 from a positive finite double, where
      the result is finite\<close>
  "f64_sub x y = f64_nearest (x - y)"

subsection \<open>Binary formatting and parsing\<close>

text \<open>
  The reflections are written with strings: \<open>f"{word:08b}"\<close> formats in binary, zero
  padded to a minimum width (the sign counts towards the width and stays in front),
  \<open>tmp[::-1]\<close> reverses the string and \<open>int(..., 2)\<close> parses it, raising
  \<open>ValueError\<close> on a string that is no binary numeral.
\<close>

fun bin_digits :: "nat \<Rightarrow> string" where
  "bin_digits n =
     (if n < 2 then [if n = 0 then CHR ''0'' else CHR ''1'']
      else bin_digits (n div 2) @ [if even n then CHR ''0'' else CHR ''1''])"

declare bin_digits.simps [simp del]

definition py_format_0b :: "int \<Rightarrow> int \<Rightarrow> string" where
  "py_format_0b width v =
     (let ds = bin_digits (nat \<bar>v\<bar>); sign = (if v < 0 then ''-'' else '''')
      in sign @ replicate (nat width - length sign - length ds) CHR ''0'' @ ds)"

fun bin_value :: "int \<Rightarrow> string \<Rightarrow> int option" where
  "bin_value acc [] = Some acc"
| "bin_value acc (c # cs) =
     (if c = CHR ''0'' then bin_value (2 * acc) cs
      else if c = CHR ''1'' then bin_value (2 * acc + 1) cs
      else None)"

definition py_int_base2 :: "string \<Rightarrow> py_error + int" where
  \<comment> \<open>\<open>int(s, 2)\<close> on strings of digits with an optional sign in front\<close>
  "py_int_base2 s =
     (let (neg, ds) = (case s of c # cs \<Rightarrow> if c = CHR ''-'' then (True, cs)
                                       else if c = CHR ''+'' then (False, cs)
                                       else (False, s)
                                | [] \<Rightarrow> (False, s))
      in if ds = [] then Inl ValueError
         else case bin_value 0 ds of
                None \<Rightarrow> Inl ValueError
              | Some v \<Rightarrow> Inr (if neg then - v else v))"

definition reflect_str :: "int \<Rightarrow> int \<Rightarrow> py_error + int" where
  \<comment> \<open>\<open>tmp = f"{word:0{width}b}"; int(tmp[::-1], 2)\<close>\<close>
  "reflect_str width word = py_int_base2 (rev (py_format_0b width word))"

subsection \<open>Memory access\<close>

text \<open>
  A memory image is a byte-indexed read-only view of the loaded file; it is total here,
  a read outside the backing store being the loader's concern and not the checksum's.
  The access object has the two methods \<open>calc_checksum\<close> calls.
\<close>

type_synonym MemoryImage = "int \<Rightarrow> 8 word"

record mem_access =
  get_size :: int
  get_value :: "MemoryImage \<Rightarrow> int \<Rightarrow> int"

text \<open>
  Modelled from the spec: the class \<open>MemAccessU8\<close> of \<open>pyHexDump.mem_access\<close>,
  which is not among the sources. The spec fixes the access word size at 1 byte and has
  the engine read single bytes at given addresses.
\<close>

definition MemAccessU8 :: mem_access where
  "MemAccessU8 = \<lparr>get_size = 1, get_value = (\<lambda>binary_data address. uint (binary_data address))\<rparr>"

subsection \<open>The checksum\<close>

definition crc_shift :: "int \<Rightarrow> int \<Rightarrow> int \<Rightarrow> int" where
  \<comment> \<open>the body of the inner loop: shift left, and xor the polynomial in when the bit of
      \<open>msb_mask\<close> is set\<close>
  "crc_shift msb_mask polynomial crc =
     (let crc = push_bit 1 crc
      in if crc AND msb_mask \<noteq> 0 then crc XOR polynomial else crc)"

fun crc_bits :: "nat \<Rightarrow> int \<Rightarrow> int \<Rightarrow> int \<Rightarrow> int" where
  \<comment> \<open>\<open>for _ in range(n)\<close>\<close>
  "crc_bits 0 msb_mask polynomial crc = crc"
| "crc_bits (Suc n) msb_mask polynomial crc =
     crc_bits n msb_mask polynomial (crc_shift msb_mask polynomial crc)"

text \<open>
  The \<open>while count > 0\<close> loop. Its state is \<open>count\<close>, \<open>offset\<close>, \<open>crc\<close> and
  \<open>word\<close>; \<open>reads\<close> logs the addresses passed to \<open>get_value\<close>, oldest first. The
  counter is a float, so the loop is not known to end and is a partial function.
\<close>

partial_function (option) crc_loop ::
  "mem_access \<Rightarrow> MemoryImage \<Rightarrow> int \<Rightarrow> int \<Rightarrow> int \<Rightarrow> int \<Rightarrow> bool \<Rightarrow>
   rat \<Rightarrow> int \<Rightarrow> int \<Rightarrow> int \<Rightarrow> int list \<Rightarrow> (py_error + int \<times> int \<times> int list) option" where
  "crc_loop mem binary_data start_address bit_width msb_mask polynomial reverse_input
     count offset crc word reads =
     (if 0 < count then
        let count = f64_sub count 1;
            reads = reads @ [start_address + offset];
            word = get_value mem binary_data (start_address + offset)
        in case (if reverse_input then reflect_str 8 word else Inr word) of
             Inl e \<Rightarrow> Some (Inl e)
           | Inr word \<Rightarrow>
               let crc = crc XOR push_bit (nat (bit_width - 8)) word;
                   crc = crc_bits 8 msb_mask polynomial crc
               in crc_loop mem binary_data start_address bit_width msb_mask polynomial
                    reverse_input count (offset + get_size mem) crc word reads
      else Some (Inr (crc, word, reads)))"

declare crc_loop.simps [code]

definition calc_checksum_run ::
  "mem_access \<Rightarrow> MemoryImage \<Rightarrow> int \<Rightarrow> int \<Rightarrow> int \<Rightarrow> int \<Rightarrow> int \<Rightarrow> bool \<Rightarrow> bool \<Rightarrow> bool \<Rightarrow>
   (py_error + (Ret \<times> int) \<times> int list) option" where
  \<comment> \<open>the body of \<open>calc_checksum\<close>, with the access object as a parameter and the log of
      the addresses read beside the returned pair\<close>
  "calc_checksum_run mem binary_data start_address end_address polynomial bit_width seed
     reverse_input reverse_output final_xor =
     (case py_truediv (end_address - start_address) (get_size mem) of
        Inl e \<Rightarrow> Some (Inl e)
      | Inr count \<Rightarrow>
          (if bit_width \<noteq> 8 \<and> bit_width \<noteq> 16 \<and> bit_width \<noteq> 32
          then Some (Inr ((ERROR_CRC_CACLULATION, 0), []))
          else if (end_address - start_address) mod get_size mem \<noteq> 0
          then Some (Inr ((ERROR_CRC_CACLULATION, 0), []))
          else
            let bit_width_mask = 2 ^ nat bit_width - 1;
                msb_mask = push_bit (nat bit_width) 1;
                polynomial = push_bit (nat bit_width) 1 OR polynomial
            in (case crc_loop mem binary_data start_address bit_width msb_mask polynomial
                      reverse_input count 0 seed 0 [] of
                 None \<Rightarrow> None
               | Some (Inl e) \<Rightarrow> Some (Inl e)
               | Some (Inr (crc, word, reads)) \<Rightarrow>
                   (let crc = crc AND bit_width_mask
                    in case (if reverse_output then reflect_str bit_width word else Inr word) of
                         Inl e \<Rightarrow> Some (Inl e)
                       | Inr word \<Rightarrow>
                           (let crc = (if final_xor then crc XOR bit_width_mask else crc)
                            in Some (Inr ((OK, crc), reads)))))))"

definition drop_log :: "(py_error + 'a \<times> int list) option \<Rightarrow> (py_error + 'a) option" where
  "drop_log r = map_option (map_sum id fst) r"

definition calc_checksum ::
  "MemoryImage \<Rightarrow> int \<Rightarrow> int \<Rightarrow> int \<Rightarrow> int \<Rightarrow> int \<Rightarrow> bool \<Rightarrow> bool \<Rightarrow> bool \<Rightarrow>
   (py_error + Ret \<times> int) option" where
  "calc_checksum binary_data start_address end_address polynomial bit_width seed
     reverse_input reverse_output final_xor =
     drop_log (calc_checksum_run MemAccessU8 binary_data start_address end_address
       polynomial bit_width seed reverse_input reverse_output final_xor)"

text \<open>
  Two loop results are compared up to the bits of the register at and above the width:
  \<open>low_bits n\<close> keeps the \<open>n\<close> low bits of the register of a result.
\<close>

definition low_bits :: "nat \<Rightarrow> py_error + int \<times> int \<times> int list \<Rightarrow> py_error + int \<times> int \<times> int list" where
  "low_bits n = map_sum id (\<lambda>(crc, word, reads). (take_bit n crc, word, reads))"

section \<open>Properties\<close>

subsection \<open>Integers that are doubles\<close>

text \<open>
  A positive integer whose binary expansion fits into 53 significant bits is a double, and
  rounding leaves it alone. So the counter is exact up to \<open>2 ^ 53\<close>, and the division
  of line 73 raises at \<open>2 ^ 1024\<close>.
\<close>

lemma round_half_even_of_int: "round_half_even (of_int m) = m"
  by (simp add: round_half_even_def)

lemma floor_log2_of_int:
  assumes "0 < n"
  shows "floor_log2 (of_int n) = bitlen n - 1"
proof -
  have b: "(2::int) ^ nat (bitlen n - 1) \<le> n" using bitlen_bounds [OF assms] by simp
  have ge: "0 \<le> bitlen n - 1" using assms by (simp add: bitlen_alt_def)
  have "(of_int ((2::int) ^ nat (bitlen n - 1)) :: rat) \<le> of_int n"
    using b by (simp only: of_int_le_iff)
  then have "pow2 (bitlen n - 1) \<le> of_int n"
    using ge by (simp add: pow2_def)
  moreover have "bitlen 1 = 1" by (simp add: bitlen_alt_def)
  ultimately show ?thesis
    by (simp add: floor_log2_def quotient_of_rat_of_int)
qed

lemma f64_nearest_int_exact:
  assumes "0 < n" and "(2::int) ^ nat (bitlen n - 53) dvd n"
  shows "f64_nearest (of_int n) = of_int n"
proof -
  define e where "e = bitlen n - 1"
  define u where "u = pow2 (e - 52)"
  have ge: "0 \<le> e" using assms(1) by (simp add: e_def bitlen_alt_def)
  have abs: "\<bar>of_int n :: rat\<bar> = of_int n" using assms(1) by simp
  have sg: "sgn (of_int n :: rat) = 1" using assms(1) by simp
  have nz: "(of_int n :: rat) \<noteq> 0" using assms(1) by simp
  have mx: "max e (- 1022) = e" using ge by simp
  have fl: "floor_log2 (of_int n) = e"
    using floor_log2_of_int [OF assms(1)] by (simp add: e_def)
  have step: "f64_nearest (of_int n) = of_int (round_half_even (of_int n / u)) * u"
    unfolding f64_nearest_def Let_def abs fl mx sg u_def using nz by simp
  show ?thesis
  proof (cases "52 \<le> e")
    case True
    then have k: "nat (bitlen n - 53) = nat (e - 52)" by (simp add: e_def)
    from assms(2) obtain m where m: "n = 2 ^ nat (e - 52) * m" unfolding k by (auto elim: dvdE)
    have p: "u = 2 ^ nat (e - 52)" using True by (simp add: u_def pow2_def)
    have q: "(of_int n :: rat) = of_int m * u"
      unfolding p by (subst m) simp
    have "u \<noteq> 0" unfolding p by simp
    then have "(of_int n :: rat) / u = of_int m" unfolding q by simp
    then show ?thesis
      unfolding step by (simp add: round_half_even_of_int q)
  next
    case False
    then have p: "u = 1 / 2 ^ nat (52 - e)" by (simp add: u_def pow2_def)
    have eq: "(of_int n :: rat) / u = of_int (n * 2 ^ nat (52 - e))"
      unfolding p by simp
    have "f64_nearest (of_int n) = of_int (n * 2 ^ nat (52 - e)) * u"
      unfolding step eq round_half_even_of_int ..
    also have "\<dots> = of_int n" unfolding p by simp
    finally show ?thesis .
  qed
qed

lemma bitlen_less_pow2:
  assumes "0 < n" and "n < 2 ^ k"
  shows "bitlen n \<le> int k"
proof -
  have "(2::int) ^ nat (bitlen n - 1) \<le> n" using bitlen_bounds [OF assms(1)] by simp
  with assms(2) have "(2::int) ^ nat (bitlen n - 1) < 2 ^ k" by linarith
  then have "nat (bitlen n - 1) < k" by (simp add: power_strict_increasing_iff)
  then show ?thesis by simp
qed

lemma f64_nearest_small_int:
  assumes "0 \<le> n" and "n \<le> 2 ^ 53"
  shows "f64_nearest (of_int n) = of_int n"
proof (cases "n = 0")
  case True
  then show ?thesis by (simp add: f64_nearest_def)
next
  case False
  with assms(1) have pos: "0 < n" by simp
  show ?thesis
  proof (cases "n = 2 ^ 53")
    case True
    have "bitlen 1 = 1" by (simp add: bitlen_alt_def)
    with bitlen_pow2 [of 1 53] have "bitlen n = 54" using True by simp
    then have "(2::int) ^ nat (bitlen n - 53) dvd n" using True by simp
    from f64_nearest_int_exact [OF pos this] show ?thesis .
  next
    case False
    with assms(2) have "n < 2 ^ 53" by simp
    from bitlen_less_pow2 [OF pos this] have "nat (bitlen n - 53) = 0" by simp
    then have "(2::int) ^ nat (bitlen n - 53) dvd n" by simp
    from f64_nearest_int_exact [OF pos this] show ?thesis .
  qed
qed

lemma py_truediv_small:
  assumes "0 \<le> n" and "n \<le> 2 ^ 53"
  shows "py_truediv n 1 = Inr (of_int n)"
proof -
  have "(of_int n :: rat) \<le> of_int (2 ^ 53)" using assms(2) by (simp only: of_int_le_iff)
  then have "\<bar>of_int n :: rat\<bar> < 2 ^ 1024" using assms(1) by simp
  then show ?thesis
    by (simp add: py_truediv_def f64_nearest_small_int [OF assms])
qed

lemma f64_sub_one_small:
  assumes "0 < n" and "n \<le> 2 ^ 53"
  shows "f64_sub (of_int n) 1 = of_int (n - 1)"
proof -
  have "f64_nearest (of_int (n - 1)) = of_int (n - 1)"
    using assms by (intro f64_nearest_small_int) simp_all
  then show ?thesis by (simp add: f64_sub_def)
qed

lemma py_truediv_overflow: "py_truediv (2 ^ 1024) 1 = Inl OverflowError"
proof -
  have "bitlen 1 = 1" by (simp add: bitlen_alt_def)
  with bitlen_pow2 [of 1 1024] have b: "bitlen (2 ^ 1024) = 1025" by simp
  have "(2::int) ^ nat (bitlen (2 ^ 1024) - 53) dvd 2 ^ 1024"
    unfolding b by (simp add: le_imp_power_dvd)
  then have "f64_nearest (of_int (2 ^ 1024)) = of_int (2 ^ 1024)"
    by (intro f64_nearest_int_exact) simp_all
  then have "f64_nearest (2 ^ 1024) = 2 ^ 1024" by simp
  then show ?thesis by (simp add: py_truediv_def)
qed

subsection \<open>Unfolding the loop\<close>

lemma crc_loop_done:
  "\<not> 0 < count \<Longrightarrow>
   crc_loop mem binary_data start_address bit_width msb_mask polynomial reverse_input
     count offset crc word reads = Some (Inr (crc, word, reads))"
  by (subst crc_loop.simps) simp

lemma crc_loop_step:
  "0 < count \<Longrightarrow>
   crc_loop mem binary_data start_address bit_width msb_mask polynomial reverse_input
     count offset crc word reads =
   (case (if reverse_input then reflect_str 8 (get_value mem binary_data (start_address + offset))
          else Inr (get_value mem binary_data (start_address + offset))) of
      Inl e \<Rightarrow> Some (Inl e)
    | Inr w \<Rightarrow>
        crc_loop mem binary_data start_address bit_width msb_mask polynomial reverse_input
          (f64_sub count 1) (offset + get_size mem)
          (crc_bits 8 msb_mask polynomial (crc XOR push_bit (nat (bit_width - 8)) w))
          w (reads @ [start_address + offset]))"
  by (subst crc_loop.simps) (simp add: Let_def split: sum.splits)

lemma crc_bits_numeral:
  "crc_bits (numeral k) msb_mask polynomial crc =
     crc_bits (pred_numeral k) msb_mask polynomial (crc_shift msb_mask polynomial crc)"
  by (simp add: numeral_eq_Suc)

lemma py_truediv_1_1: "py_truediv 1 1 = Inr 1" by code_simp
lemma py_truediv_0_1: "py_truediv 0 1 = Inr 0" by code_simp
lemma f64_sub_1_1: "f64_sub 1 1 = 0" by code_simp
lemma reflect_str_8_128: "reflect_str 8 128 = Inr 1" by code_simp

subsection \<open>The reflections never raise on a byte\<close>

lemma bin_digits_set: "set (bin_digits n) \<subseteq> {CHR ''0'', CHR ''1''}"
proof (induction n rule: bin_digits.induct)
  case (1 n)
  show ?case
  proof (cases "n < 2")
    case True
    then show ?thesis by (subst bin_digits.simps) simp
  next
    case False
    with "1.IH" show ?thesis by (subst bin_digits.simps) auto
  qed
qed

lemma bin_digits_nonempty: "bin_digits n \<noteq> []"
  by (subst bin_digits.simps) simp

lemma bin_value_digits:
  "set s \<subseteq> {CHR ''0'', CHR ''1''} \<Longrightarrow> 0 \<le> acc \<Longrightarrow> \<exists>v. bin_value acc s = Some v \<and> 0 \<le> v"
  by (induction s arbitrary: acc) auto

lemma py_int_base2_digits:
  assumes "s \<noteq> []" and "set s \<subseteq> {CHR ''0'', CHR ''1''}"
  shows "\<exists>v. py_int_base2 s = Inr v \<and> 0 \<le> v"
proof -
  obtain c cs where s: "s = c # cs" using assms(1) by (cases s) auto
  with assms(2) have c: "c \<noteq> CHR ''-''" "c \<noteq> CHR ''+''" by auto
  obtain v where v: "bin_value 0 s = Some v" "0 \<le> v"
    using bin_value_digits [OF assms(2), of 0] by auto
  show ?thesis using s c v by (simp add: py_int_base2_def)
qed

lemma reflect_str_nonneg:
  assumes "0 \<le> w"
  shows "\<exists>v. reflect_str width w = Inr v \<and> 0 \<le> v"
proof -
  let ?s = "rev (py_format_0b width w)"
  have "?s \<noteq> []"
    using assms by (simp add: py_format_0b_def Let_def bin_digits_nonempty)
  moreover have "set ?s \<subseteq> {CHR ''0'', CHR ''1''}"
    using assms bin_digits_set [of "nat \<bar>w\<bar>"] by (auto simp: py_format_0b_def Let_def)
  ultimately show ?thesis
    unfolding reflect_str_def by (rule py_int_base2_digits)
qed

lemma get_value_u8_nonneg: "0 \<le> get_value MemAccessU8 binary_data address"
  by (simp add: MemAccessU8_def)

lemma crc_loop_u8_word_aux:
  assumes "crc_loop mem binary_data start_address bit_width msb_mask polynomial reverse_input
             count offset crc word reads = Some y"
  shows "mem = MemAccessU8 \<longrightarrow> 0 \<le> word \<longrightarrow>
         (\<exists>crc' word' reads'. y = Inr (crc', word', reads') \<and> 0 \<le> word')"
proof (rule crc_loop.raw_induct
    [where P = "\<lambda>mem binary_data start_address bit_width msb_mask polynomial reverse_input
                  count offset crc word reads y.
                mem = MemAccessU8 \<longrightarrow> 0 \<le> word \<longrightarrow>
                (\<exists>crc' word' reads'. y = Inr (crc', word', reads') \<and> 0 \<le> word')",
     OF _ assms], goal_cases)
  case (1 loop mem binary_data start_address bit_width msb_mask polynomial reverse_input
          count offset crc word reads y)
  show ?case
  proof (intro impI)
    assume mem: "mem = MemAccessU8" and word: "0 \<le> word"
    show "\<exists>crc' word' reads'. y = Inr (crc', word', reads') \<and> 0 \<le> word'"
    proof (cases "0 < count")
      case False
      with 1(2) word show ?thesis by auto
    next
      case True
      let ?w = "get_value mem binary_data (start_address + offset)"
      have w: "0 \<le> ?w" using mem by (simp add: get_value_u8_nonneg)
      obtain v where v: "(if reverse_input then reflect_str 8 ?w else Inr ?w) = Inr v" "0 \<le> v"
        using reflect_str_nonneg [OF w, of 8] w by (cases reverse_input) auto
      from 1(2) True v(1)
      have "loop mem binary_data start_address bit_width msb_mask polynomial reverse_input
              (f64_sub count 1) (offset + get_size mem)
              (crc_bits 8 msb_mask polynomial (crc XOR push_bit (nat (bit_width - 8)) v))
              v (reads @ [start_address + offset]) = Some y"
        by (simp add: Let_def)
      from 1(1) [OF this] mem v(2) show ?thesis by blast
    qed
  qed
qed

lemma crc_loop_u8_word:
  assumes "crc_loop MemAccessU8 binary_data start_address bit_width msb_mask polynomial
             reverse_input count offset crc 0 reads = Some y"
  shows "\<exists>crc' word' reads'. y = Inr (crc', word', reads') \<and> 0 \<le> word'"
  using crc_loop_u8_word_aux [OF assms] by simp

lemma crc_loop_u8_reflect:
  assumes "crc_loop MemAccessU8 binary_data start_address bit_width msb_mask polynomial
             reverse_input count offset crc 0 reads = Some y"
  shows "\<exists>crc' word' reads' v. y = Inr (crc', word', reads') \<and> reflect_str width word' = Inr v"
proof -
  obtain crc' word' reads' where y: "y = Inr (crc', word', reads')" and w: "0 \<le> word'"
    using crc_loop_u8_word [OF assms] by blast
  from reflect_str_nonneg [OF w, of width] y show ?thesis by blast
qed

subsection \<open>The call returns on ranges of up to \<open>2 ^ 53\<close> bytes\<close>

lemma crc_loop_u8_returns:
  "int k \<le> 2 ^ 53 \<Longrightarrow>
   \<exists>r. crc_loop MemAccessU8 binary_data start_address bit_width msb_mask polynomial
         reverse_input (of_int (int k)) offset crc word reads = Some (Inr r)"
proof (induction k arbitrary: offset crc word reads)
  case 0
  show ?case by (simp add: crc_loop_done)
next
  case (Suc k)
  let ?w = "get_value MemAccessU8 binary_data (start_address + offset)"
  have pos: "0 < (of_int (int (Suc k)) :: rat)" by simp
  have sub: "f64_sub (of_int (int (Suc k))) 1 = of_int (int k)"
    using f64_sub_one_small [of "int (Suc k)"] Suc.prems by simp
  have w: "0 \<le> ?w" by (rule get_value_u8_nonneg)
  obtain v where v: "(if reverse_input then reflect_str 8 ?w else Inr ?w) = Inr v"
    using reflect_str_nonneg [OF w, of 8] by (cases reverse_input) auto
  from Suc.prems have k: "int k \<le> 2 ^ 53" by simp
  show ?case
    unfolding crc_loop_step [OF pos] sub v
    using Suc.IH [OF k] by simp
qed

lemma calc_checksum_returns:
  assumes "bit_width \<in> {8, 16, 32}" and "start_address \<le> end_address"
    and "end_address - start_address \<le> 2 ^ 53"
  shows "\<exists>crc. calc_checksum binary_data start_address end_address polynomial bit_width seed
           reverse_input reverse_output final_xor = Some (Inr (OK, crc))"
proof -
  define n where "n = nat (end_address - start_address)"
  have n: "end_address - start_address = int n" "int n \<le> 2 ^ 53"
    using assms(2,3) by (simp_all add: n_def)
  have div: "py_truediv (end_address - start_address) (get_size MemAccessU8) = Inr (of_int (int n))"
    using py_truediv_small [of "int n"] n by (simp add: MemAccessU8_def)
  obtain crc word reads where l: "crc_loop MemAccessU8 binary_data start_address bit_width
      (push_bit (nat bit_width) 1) (push_bit (nat bit_width) 1 OR polynomial)
      reverse_input (of_int (int n)) 0 seed 0 [] = Some (Inr (crc, word, reads))"
    using crc_loop_u8_returns [OF n(2)] by (metis prod_cases3)
  obtain v where v: "reflect_str bit_width word = Inr v"
    using crc_loop_u8_reflect [OF l] by auto
  have al: "(end_address - start_address) mod get_size MemAccessU8 = 0"
    by (simp add: MemAccessU8_def)
  show ?thesis
    using assms(1) l v
    unfolding calc_checksum_def calc_checksum_run_def drop_log_def div
    by (auto simp: Let_def al)
qed

subsection \<open>An invalid width on a range whose count is computed\<close>

lemma invalid_width_rejected:
  assumes "bit_width \<notin> {8, 16, 32}"
    and "py_truediv (end_address - start_address) (get_size MemAccessU8) = Inr count"
  shows "calc_checksum_run MemAccessU8 binary_data start_address end_address polynomial
           bit_width seed reverse_input reverse_output final_xor =
         Some (Inr ((ERROR_CRC_CACLULATION, 0), []))"
  using assms by (simp add: calc_checksum_run_def)


subsection \<open>The low bits of the register evolve on their own\<close>

lemma msb_test: "(x AND push_bit n 1 \<noteq> (0::int)) = bit x n"
  by (simp add: push_bit_of_1 and_exp_eq_0_iff_not_bit)

lemma crc_shift_take_bit:
  assumes "0 < n" and "take_bit n a = take_bit n (b::int)"
  shows "take_bit n (crc_shift (push_bit n 1) p a) = take_bit n (crc_shift (push_bit n 1) p b)"
proof -
  have bits: "\<And>i. i < n \<Longrightarrow> bit a i = bit b i"
    using assms(2) by (metis bit_take_bit_iff)
  have top: "bit (push_bit 1 a) n = bit (push_bit 1 b) n"
    unfolding bit_push_bit_iff using assms(1) bits [of "n - 1"] by simp
  have low: "take_bit n (push_bit 1 a) = take_bit n (push_bit 1 b)"
  proof (rule bit_eqI)
    fix i
    show "bit (take_bit n (push_bit 1 a)) i = bit (take_bit n (push_bit 1 b)) i"
      unfolding bit_take_bit_iff bit_push_bit_iff using bits [of "i - 1"] by auto
  qed
  show ?thesis
  proof (cases "bit (push_bit 1 a) n")
    case True
    with top have "bit (push_bit 1 b) n" by simp
    with True show ?thesis
      unfolding crc_shift_def Let_def msb_test by (simp only: if_True take_bit_xor low)
  next
    case False
    with top have "\<not> bit (push_bit 1 b) n" by simp
    with False show ?thesis
      unfolding crc_shift_def Let_def msb_test by (simp only: if_False low)
  qed
qed

lemma crc_bits_take_bit:
  "0 < n \<Longrightarrow> take_bit n a = take_bit n b \<Longrightarrow>
   take_bit n (crc_bits k (push_bit n 1) p a) = take_bit n (crc_bits k (push_bit n 1) p b)"
proof (induction k arbitrary: a b)
  case 0
  then show ?case by simp
next
  case (Suc k)
  from Suc.IH [OF Suc.prems(1) crc_shift_take_bit [OF Suc.prems, of p]]
  show ?case by (simp only: crc_bits.simps)
qed


lemma crc_loop_low_bits_aux:
  assumes "crc_loop mem binary_data start_address bit_width msb_mask polynomial reverse_input
             count offset crc word reads = Some y"
  shows "\<forall>crc2. msb_mask = push_bit (nat bit_width) 1 \<longrightarrow> 0 < nat bit_width \<longrightarrow>
           take_bit (nat bit_width) crc = take_bit (nat bit_width) crc2 \<longrightarrow>
           (\<exists>y2. crc_loop mem binary_data start_address bit_width msb_mask polynomial
                   reverse_input count offset crc2 word reads = Some y2 \<and>
                 low_bits (nat bit_width) y2 = low_bits (nat bit_width) y)"
proof (rule crc_loop.raw_induct
    [where P = "\<lambda>mem binary_data start_address bit_width msb_mask polynomial reverse_input
                  count offset crc word reads y.
                \<forall>crc2. msb_mask = push_bit (nat bit_width) 1 \<longrightarrow> 0 < nat bit_width \<longrightarrow>
                  take_bit (nat bit_width) crc = take_bit (nat bit_width) crc2 \<longrightarrow>
                  (\<exists>y2. crc_loop mem binary_data start_address bit_width msb_mask polynomial
                          reverse_input count offset crc2 word reads = Some y2 \<and>
                        low_bits (nat bit_width) y2 = low_bits (nat bit_width) y)",
     OF _ assms], goal_cases)
  case (1 loop mem binary_data start_address bit_width msb_mask polynomial reverse_input
          count offset crc word reads y)
  show ?case
  proof (intro allI impI)
    fix crc2
    assume msb: "msb_mask = push_bit (nat bit_width) 1" and n: "0 < nat bit_width"
      and eq: "take_bit (nat bit_width) crc = take_bit (nat bit_width) crc2"
    let ?w = "get_value mem binary_data (start_address + offset)"
    let ?r = "if reverse_input then reflect_str 8 ?w else Inr ?w"
    show "\<exists>y2. crc_loop mem binary_data start_address bit_width msb_mask polynomial
                 reverse_input count offset crc2 word reads = Some y2 \<and>
               low_bits (nat bit_width) y2 = low_bits (nat bit_width) y"
    proof (cases "0 < count")
      case False
      with 1(2) have "y = Inr (crc, word, reads)" by simp
      with False eq show ?thesis by (simp add: crc_loop_done low_bits_def)
    next
      case True
      show ?thesis
      proof (cases ?r)
        case (Inl e)
        with 1(2) True have "y = Inl e" by (simp add: Let_def)
        with True Inl show ?thesis by (simp add: crc_loop_step)
      next
        case (Inr v)
        let ?x = "push_bit (nat (bit_width - 8)) v"
        from 1(2) True Inr
        have "loop mem binary_data start_address bit_width msb_mask polynomial reverse_input
                (f64_sub count 1) (offset + get_size mem)
                (crc_bits 8 msb_mask polynomial (crc XOR ?x))
                v (reads @ [start_address + offset]) = Some y"
          by (simp add: Let_def)
        moreover have "take_bit (nat bit_width) (crc XOR ?x) = take_bit (nat bit_width) (crc2 XOR ?x)"
          using eq by (simp only: take_bit_xor)
        then have "take_bit (nat bit_width) (crc_bits 8 msb_mask polynomial (crc XOR ?x)) =
                   take_bit (nat bit_width) (crc_bits 8 msb_mask polynomial (crc2 XOR ?x))"
          unfolding msb by (rule crc_bits_take_bit [OF n])
        ultimately obtain y2 where
          "crc_loop mem binary_data start_address bit_width msb_mask polynomial reverse_input
             (f64_sub count 1) (offset + get_size mem)
             (crc_bits 8 msb_mask polynomial (crc2 XOR ?x))
             v (reads @ [start_address + offset]) = Some y2"
          "low_bits (nat bit_width) y2 = low_bits (nat bit_width) y"
          using 1(1) msb n by blast
        with True Inr show ?thesis by (simp add: crc_loop_step)
      qed
    qed
  qed
qed

lemma crc_loop_low_bits:
  assumes "0 < nat bit_width"
    and "take_bit (nat bit_width) crc = take_bit (nat bit_width) crc2"
  shows "map_option (low_bits (nat bit_width))
           (crc_loop mem binary_data start_address bit_width (push_bit (nat bit_width) 1)
              polynomial reverse_input count offset crc word reads) =
         map_option (low_bits (nat bit_width))
           (crc_loop mem binary_data start_address bit_width (push_bit (nat bit_width) 1)
              polynomial reverse_input count offset crc2 word reads)"
    (is "map_option ?f ?a = map_option ?f ?b")
proof (cases ?a)
  case None
  show ?thesis
  proof (cases ?b)
    case None
    with \<open>?a = None\<close> show ?thesis by simp
  next
    case (Some y2)
    from crc_loop_low_bits_aux [OF Some] assms obtain y where "?a = Some y" by metis
    with \<open>?a = None\<close> show ?thesis by simp
  qed
next
  case (Some y)
  from crc_loop_low_bits_aux [OF Some] assms
  obtain y2 where "?b = Some y2" "?f y2 = ?f y" by metis
  with Some show ?thesis by simp
qed


lemma and_mask_take_bit: "crc AND (2 ^ n - 1 :: int) = take_bit n crc"
  by (simp add: take_bit_eq_mask mask_eq_exp_minus_1)

lemma calc_checksum_run_low_bits:
  assumes n: "0 < nat bit_width"
    and eq: "take_bit (nat bit_width) seed = take_bit (nat bit_width) seed2"
  shows "calc_checksum_run mem binary_data start_address end_address polynomial bit_width seed
           reverse_input reverse_output final_xor =
         calc_checksum_run mem binary_data start_address end_address polynomial bit_width seed2
           reverse_input reverse_output final_xor"
proof (cases "bit_width \<noteq> 8 \<and> bit_width \<noteq> 16 \<and> bit_width \<noteq> 32")
  case True
  then show ?thesis by (simp add: calc_checksum_run_def split: sum.splits)
next
  case False
  then have valid: "(bit_width \<noteq> 8 \<and> bit_width \<noteq> 16 \<and> bit_width \<noteq> 32) = False" by simp
  show ?thesis
  proof (cases "py_truediv (end_address - start_address) (get_size mem)")
    case (Inl e)
    then show ?thesis by (simp add: calc_checksum_run_def)
  next
    case (Inr count)
    let ?L = "\<lambda>crc. crc_loop mem binary_data start_address bit_width (push_bit (nat bit_width) 1)
                (push_bit (nat bit_width) 1 OR polynomial) reverse_input count 0 crc 0 []"
    have m: "map_option (low_bits (nat bit_width)) (?L seed) =
             map_option (low_bits (nat bit_width)) (?L seed2)"
      by (rule crc_loop_low_bits [OF n eq])
    show ?thesis
    proof (cases "?L seed")
      case None
      with m have "?L seed2 = None" by simp
      with None Inr show ?thesis by (simp add: calc_checksum_run_def Let_def valid)
    next
      case (Some y)
      with m obtain y2 where y2: "?L seed2 = Some y2"
        and l: "low_bits (nat bit_width) y = low_bits (nat bit_width) y2"
        by (cases "?L seed2") auto
      show ?thesis
      proof (cases y)
        case (Inl e)
        with l have "y2 = Inl e" by (cases y2) (simp_all add: low_bits_def)
        with Inl Some y2 Inr show ?thesis by (simp add: calc_checksum_run_def Let_def valid)
      next
        case r: (Inr t)
        obtain c w rd where t: "t = (c, w, rd)" by (cases t) auto
        with l r obtain c2 where c2: "y2 = Inr (c2, w, rd)"
          and "take_bit (nat bit_width) c = take_bit (nat bit_width) c2"
          by (cases y2) (auto simp: low_bits_def)
        then have "c AND (2 ^ nat bit_width - 1) = c2 AND (2 ^ nat bit_width - 1)"
          by (simp only: and_mask_take_bit)
        with c2 r t Some y2 Inr show ?thesis
          by (simp add: calc_checksum_run_def Let_def valid split: sum.splits)
      qed
    qed
  qed
qed

subsection \<open>A worked call\<close>

lemma one_byte_example:
  "calc_checksum (\<lambda>a. 1) 0 1 7 8 0 False False False = Some (Inr (OK, 7))"
  by (simp add: calc_checksum_def calc_checksum_run_def drop_log_def MemAccessU8_def
      py_truediv_1_1 crc_loop_step crc_loop_done f64_sub_1_1 crc_bits_numeral crc_shift_def)

subsection \<open>Masking\<close>

lemma masked_bounds:
  "0 \<le> crc AND (2 ^ n - 1 :: int)" "crc AND (2 ^ n - 1 :: int) \<le> 2 ^ n - 1"
  "0 \<le> (crc AND (2 ^ n - 1 :: int)) XOR (2 ^ n - 1)"
  "(crc AND (2 ^ n - 1 :: int)) XOR (2 ^ n - 1) \<le> 2 ^ n - 1"
proof -
  have m: "(2 ^ n - 1 :: int) = mask n" by (simp add: mask_eq_exp_minus_1)
  have a: "crc AND mask n = take_bit n crc" by (simp add: take_bit_eq_mask)
  have x: "take_bit n crc XOR mask n = take_bit n (take_bit n crc XOR mask n)"
    by (simp add: take_bit_xor)
  have lt: "\<And>y::int. take_bit n y \<le> 2 ^ n - 1"
    using take_bit_int_less_exp [of n] by (simp add: zle_diff1_eq)
  show "0 \<le> crc AND (2 ^ n - 1 :: int)" unfolding m a by simp
  show "crc AND (2 ^ n - 1 :: int) \<le> 2 ^ n - 1" unfolding m a using lt [of crc] by (simp add: m)
  show "0 \<le> (crc AND (2 ^ n - 1 :: int)) XOR (2 ^ n - 1)" unfolding m a by simp
  show "(crc AND (2 ^ n - 1 :: int)) XOR (2 ^ n - 1) \<le> 2 ^ n - 1"
    unfolding m a by (subst x) (use lt [of "take_bit n crc XOR mask n"] in \<open>simp add: m\<close>)
qed

lemma masked_less:
  "crc AND (2 ^ n - 1 :: int) < 2 ^ n" "(crc AND (2 ^ n - 1 :: int)) XOR (2 ^ n - 1) < 2 ^ n"
  using masked_bounds(2,4) [of crc n] by simp_all

subsection \<open>Claims\<close>

text \<open>
  C1. With \<open>reverse_output\<close> set, \<open>calc_checksum\<close> has the same outcome as without it, all
  other arguments equal: the reflection of the last byte read is computed into \<open>word\<close>, which
  is not used afterwards, and on a byte (or on the initial 0) it does not raise.
\<close>

theorem reverse_output_no_effect:
  "calc_checksum binary_data start_address end_address polynomial bit_width seed
     reverse_input True final_xor =
   calc_checksum binary_data start_address end_address polynomial bit_width seed
     reverse_input False final_xor"
  unfolding calc_checksum_def calc_checksum_run_def
  by (auto simp: Let_def split: sum.splits option.splits
      dest!: crc_loop_u8_reflect [where width = bit_width])

text \<open>
  C2 (scenario B). On an image with the byte \<open>0x01\<close> at address 0, the range \<open>[0, 1)\<close>,
  polynomial \<open>0x07\<close>, width 8, seed 0 and no flag set, \<open>calc_checksum\<close> returns
  \<open>OK\<close> and \<open>0x07\<close>.
\<close>

theorem scenario_B:
  "binary_data 0 = 1 \<Longrightarrow>
   calc_checksum binary_data 0 1 7 8 0 False False False = Some (Inr (OK, 7))"
  by (simp add: calc_checksum_def calc_checksum_run_def drop_log_def MemAccessU8_def
      py_truediv_1_1 crc_loop_step crc_loop_done f64_sub_1_1 crc_bits_numeral crc_shift_def)

theorem scenario_B_witness:
  "(\<lambda>a::int. if a = 0 then 1 else 0 :: 8 word) 0 = 1 \<and>
   calc_checksum (\<lambda>a. if a = 0 then 1 else 0) 0 1 7 8 0 False False False = Some (Inr (OK, 7))"
  using scenario_B [of "\<lambda>a. if a = 0 then 1 else 0"] by simp

text \<open>
  C6 (scenario C). On an image with the byte \<open>0x80\<close> at address 0, the same call with
  \<open>reverse_input\<close> set returns \<open>OK\<close> and \<open>0x07\<close>, the result of scenario B: the byte is
  reflected to \<open>0x01\<close>.
\<close>

theorem scenario_C:
  "binary_data 0 = 0x80 \<Longrightarrow>
   calc_checksum binary_data 0 1 7 8 0 True False False = Some (Inr (OK, 7))"
  by (simp add: calc_checksum_def calc_checksum_run_def drop_log_def MemAccessU8_def
      py_truediv_1_1 crc_loop_step crc_loop_done f64_sub_1_1 reflect_str_8_128
      crc_bits_numeral crc_shift_def)

theorem scenario_C_witness:
  "(\<lambda>a::int. if a = 0 then 0x80 else 0 :: 8 word) 0 = 0x80 \<and>
   calc_checksum (\<lambda>a. if a = 0 then 0x80 else 0) 0 1 7 8 0 True False False = Some (Inr (OK, 7))"
  using scenario_C [of "\<lambda>a. if a = 0 then 0x80 else 0"] by simp

text \<open>
  C3. For a width of 8, 16 or 32, the outcome with \<open>final_xor\<close> set is the outcome without
  it, all other arguments equal, with the returned checksum xor-ed with
  \<open>2 ^ bit_width - 1\<close>; the two calls return, raise or run on together.
\<close>

theorem final_xor_complement:
  "bit_width \<in> {8, 16, 32} \<Longrightarrow>
   calc_checksum binary_data start_address end_address polynomial bit_width seed
     reverse_input reverse_output True =
   map_option (map_sum id (\<lambda>(status, crc). (status, crc XOR (2 ^ nat bit_width - 1))))
     (calc_checksum binary_data start_address end_address polynomial bit_width seed
        reverse_input reverse_output False)"
  unfolding calc_checksum_def calc_checksum_run_def drop_log_def
  by (auto simp: Let_def MemAccessU8_def split: sum.splits option.splits)

theorem final_xor_complement_witness:
  "(8::int) \<in> {8, 16, 32} \<and>
   calc_checksum (\<lambda>a. 1) 0 1 7 8 0 False False True =
   map_option (map_sum id (\<lambda>(status, crc). (status, crc XOR (2 ^ nat 8 - 1))))
     (calc_checksum (\<lambda>a. 1) 0 1 7 8 0 False False False)"
  using final_xor_complement [of 8 "\<lambda>a. 1" 0 1 7 0 False False] by simp

text \<open>
  C9. On an empty range (\<open>start_address = end_address\<close>) and a width of 8, 16 or 32,
  \<open>calc_checksum\<close> reads no byte (the log of reads is empty) and returns \<open>OK\<close> with the
  seed masked to the width, xor-ed with the mask when \<open>final_xor\<close> is set; neither
  reflection flag changes the result.
\<close>

theorem empty_range:
  "bit_width \<in> {8, 16, 32} \<Longrightarrow>
   calc_checksum_run MemAccessU8 binary_data address address polynomial bit_width seed
     reverse_input reverse_output final_xor =
   Some (Inr ((OK, if final_xor then (seed AND (2 ^ nat bit_width - 1)) XOR (2 ^ nat bit_width - 1)
                   else seed AND (2 ^ nat bit_width - 1)), [])) \<and>
   calc_checksum binary_data address address polynomial bit_width seed
     reverse_input reverse_output final_xor =
   Some (Inr (OK, if final_xor then (seed AND (2 ^ nat bit_width - 1)) XOR (2 ^ nat bit_width - 1)
                  else seed AND (2 ^ nat bit_width - 1)))"
proof -
  assume bw: "bit_width \<in> {8, 16, 32}"
  obtain v where v: "reflect_str bit_width 0 = Inr v"
    using reflect_str_nonneg [of 0 bit_width] by auto
  have run: "calc_checksum_run MemAccessU8 binary_data address address polynomial bit_width seed
      reverse_input reverse_output final_xor =
    Some (Inr ((OK, if final_xor then (seed AND (2 ^ nat bit_width - 1)) XOR (2 ^ nat bit_width - 1)
                    else seed AND (2 ^ nat bit_width - 1)), []))"
    using bw v
    by (auto simp: calc_checksum_run_def MemAccessU8_def py_truediv_0_1 crc_loop_done Let_def)
  then show ?thesis
    by (simp add: calc_checksum_def drop_log_def)
qed

theorem empty_range_witness:
  "(16::int) \<in> {8, 16, 32} \<and>
   calc_checksum_run MemAccessU8 (\<lambda>a. 1) 5 5 7 16 0x12345 True True True =
   Some (Inr ((OK, 0xDCBA), [])) \<and>
   calc_checksum (\<lambda>a. 1) 5 5 7 16 0x12345 True True True = Some (Inr (OK, 0xDCBA))"
  using empty_range [of 16 "\<lambda>a. 1" 5 7 "0x12345" True True True] by simp

text \<open>
  C8. The access word size is 1 byte, so the length of every range is a multiple of it and
  the second check of \<open>calc_checksum\<close> never fails: with a width of 8, 16 or 32 the call
  never returns the error status.
\<close>

theorem misaligned_unreachable:
  "(end_address - start_address) mod get_size MemAccessU8 = 0 \<and>
   (bit_width \<in> {8, 16, 32} \<longrightarrow>
    (\<forall>crc. calc_checksum binary_data start_address end_address polynomial bit_width seed
        reverse_input reverse_output final_xor \<noteq> Some (Inr (ERROR_CRC_CACLULATION, crc))))"
  unfolding calc_checksum_def calc_checksum_run_def drop_log_def
  by (auto simp: Let_def MemAccessU8_def split: sum.splits option.splits)

theorem misaligned_unreachable_witness:
  "(3 - 0) mod get_size MemAccessU8 = 0 \<and>
   (8::int) \<in> {8, 16, 32} \<and>
   (\<forall>crc. calc_checksum (\<lambda>a. 1) 0 3 7 8 0 False False False \<noteq>
      Some (Inr (ERROR_CRC_CACLULATION, crc)))"
  using misaligned_unreachable [of 3 0 8 "\<lambda>a. 1" 7 0 False False False] by simp




text \<open>
  C5. For a width of 8, 16 or 32, a checksum that \<open>calc_checksum\<close> returns lies between 0
  and \<open>2 ^ bit_width - 1\<close>; and on a range of at most \<open>2 ^ 53\<close> bytes the call does
  return, with status \<open>OK\<close>.
\<close>

theorem checksum_in_range:
  "bit_width \<in> {8, 16, 32} \<Longrightarrow>
   (\<forall>status crc. calc_checksum binary_data start_address end_address polynomial bit_width seed
        reverse_input reverse_output final_xor = Some (Inr (status, crc)) \<longrightarrow>
      0 \<le> crc \<and> crc \<le> 2 ^ nat bit_width - 1) \<and>
   (start_address \<le> end_address \<and> end_address - start_address \<le> 2 ^ 53 \<longrightarrow>
      (\<exists>crc. calc_checksum binary_data start_address end_address polynomial bit_width seed
        reverse_input reverse_output final_xor = Some (Inr (OK, crc))))"
proof (intro conjI allI impI)
  fix status crc
  assume bw: "bit_width \<in> {8, 16, 32}"
    and r: "calc_checksum binary_data start_address end_address polynomial bit_width seed
        reverse_input reverse_output final_xor = Some (Inr (status, crc))"
  have valid: "(bit_width \<noteq> 8 \<and> bit_width \<noteq> 16 \<and> bit_width \<noteq> 32) = False"
    using bw by auto
  from r show "0 \<le> crc" and "crc \<le> 2 ^ nat bit_width - 1"
    unfolding calc_checksum_def calc_checksum_run_def drop_log_def
    by (auto simp: valid Let_def MemAccessU8_def masked_bounds masked_less
        split: sum.splits option.splits if_splits)
next
  assume "bit_width \<in> {8, 16, 32}"
    and "start_address \<le> end_address \<and> end_address - start_address \<le> 2 ^ 53"
  then show "\<exists>crc. calc_checksum binary_data start_address end_address polynomial bit_width seed
        reverse_input reverse_output final_xor = Some (Inr (OK, crc))"
    using calc_checksum_returns by blast
qed

theorem checksum_in_range_witness:
  "(8::int) \<in> {8, 16, 32} \<and> (0::int) \<le> 1 \<and> (1::int) - 0 \<le> 2 ^ 53 \<and>
   calc_checksum (\<lambda>a. 1) 0 1 7 8 0 False False False = Some (Inr (OK, 7)) \<and>
   (0::int) \<le> 7 \<and> (7::int) \<le> 2 ^ nat 8 - 1"
  using checksum_in_range [of 8 "\<lambda>a. 1" 0 1 7 0 False False False] one_byte_example
  by simp

text \<open>
  C4. The claim has every call with a width other than 8, 16 or 32 return the error status
  with the result 0. The byte count of line 73 is computed before the width is checked,
  by a float division: on the range \<open>[0, 2 ^ 1024)\<close> with width 12 the call raises
  \<open>OverflowError\<close> and returns nothing.
\<close>

theorem invalid_width_overflow:
  "calc_checksum (\<lambda>a. 0) 0 (2 ^ 1024) 7 12 0 False False False = Some (Inl OverflowError)"
proof -
  have "py_truediv (2 ^ 1024 - 0) (get_size MemAccessU8) = Inl OverflowError"
    unfolding MemAccessU8_def
    by (simp only: diff_zero mem_access.select_convs py_truediv_overflow)
  then show ?thesis
    unfolding calc_checksum_def calc_checksum_run_def
    by (simp only: sum.case drop_log_def option.map map_sum.simps id_apply)
qed

text \<open>
  C10. For a width of 8, 16 or 32 and a polynomial below \<open>2 ^ bit_width\<close>, the outcome of
  \<open>calc_checksum\<close> with seed \<open>s\<close> is its outcome with seed \<open>s mod 2 ^ bit_width\<close>: the
  top-bit test and the final mask look at the low \<open>bit_width\<close> bits of the register only.
\<close>

theorem seed_mod_width:
  "bit_width \<in> {8, 16, 32} \<Longrightarrow> polynomial < 2 ^ nat bit_width \<Longrightarrow>
   calc_checksum binary_data start_address end_address polynomial bit_width seed
     reverse_input reverse_output final_xor =
   calc_checksum binary_data start_address end_address polynomial bit_width
     (seed mod 2 ^ nat bit_width) reverse_input reverse_output final_xor"
proof -
  assume bw: "bit_width \<in> {8, 16, 32}"
  then have n: "0 < nat bit_width" by auto
  have eq: "take_bit (nat bit_width) seed = take_bit (nat bit_width) (seed mod 2 ^ nat bit_width)"
    by (simp add: take_bit_eq_mod)
  show ?thesis
    unfolding calc_checksum_def
    by (simp only: calc_checksum_run_low_bits [OF n eq])
qed

theorem seed_mod_width_witness:
  "(8::int) \<in> {8, 16, 32} \<and> (7::int) < 2 ^ nat 8 \<and>
   calc_checksum (\<lambda>a. 1) 0 1 7 8 0x1234 False False False =
   calc_checksum (\<lambda>a. 1) 0 1 7 8 (0x1234 mod 2 ^ nat 8) False False False"
  using seed_mod_width [of 8 7 "\<lambda>a. 1" 0 1 "0x1234" False False False] by simp


end
